theory Spec2Isabelle
  imports Main "HOL-Library.Word"
begin

unbundle bit_operations_syntax

section \<open>Alignment rounding (memory.h)\<close>

text \<open>
  \<open>size_t\<close> and \<open>uintptr_t\<close> are modelled as \<open>'a word\<close>: the width of a pointer is the
  type parameter, so that one development covers the 32-bit and the 64-bit targets.
  Unsigned arithmetic wraps around, in constant expressions too.

  \<open>_memory_get_aligned_address\<close> (the leading underscore is dropped). The source divides
  by \<open>p_alignment\<close>; an alignment of zero is undefined there, and every statement below
  is about a non-zero alignment.
\<close>

definition memory_get_aligned_address :: "'a::len word \<Rightarrow> 'a word \<Rightarrow> 'a word" where
  "memory_get_aligned_address p_address p_alignment =
     (let n_bytes_unaligned = p_address mod p_alignment
      in if n_bytes_unaligned = 0 then p_address
         else p_address + p_alignment - n_bytes_unaligned)"

text \<open>
  The macro \<open>SAFE_ALLOCA(m_size, m_align)\<close>. The stack allocator \<open>alloca\<close> (\<open>_alloca\<close> on
  Windows) belongs to the platform: it is a parameter that maps the requested size to the
  address it hands out.
\<close>

definition SAFE_ALLOCA :: "('a::len word \<Rightarrow> 'a word) \<Rightarrow> 'a word \<Rightarrow> 'a word \<Rightarrow> 'a word" where
  "SAFE_ALLOCA alloca m_size m_align =
     (alloca (m_size + m_align) + (m_align - 1)) AND NOT (m_align - 1)"

section \<open>The layout constants of class Memory\<close>

text \<open>
  The three branches of the preprocessor conditional that fixes \<open>MAX_ALIGN\<close>: 32-bit
  MinGW, the strict-alignment architectures (SPARC, PowerPC, PA-RISC), and every other
  target. \<open>alignof(max_align_t)\<close> and \<open>alignof(uint64_t)\<close> are constants of the
  compiler, and the byte order is a property of the processor; the three are fields of
  the target description, whose type parameter is the type of \<open>size_t\<close>.
\<close>

datatype target = MINGW32 | STRICT_ALIGNMENT | OTHER_TARGET

record 'p abi =
  target :: target
  alignof_max_align_t :: 'p
  alignof_uint64_t :: 'p
  big_endian :: bool

definition MAX_ALIGN :: "'a::len word abi \<Rightarrow> 'a word" where
  "MAX_ALIGN abi =
     (case target abi of
        MINGW32 \<Rightarrow> 16
      | STRICT_ALIGNMENT \<Rightarrow> 16
      | OTHER_TARGET \<Rightarrow> alignof_max_align_t abi)"

text \<open>
  \<open>static_assert(MAX_ALIGN % alignof(max_align_t) == 0)\<close>, present in the two branches
  that force the value 16: a target that fails it does not compile.
\<close>

definition static_assert_MAX_ALIGN :: "'a::len word abi \<Rightarrow> bool" where
  "static_assert_MAX_ALIGN abi =
     (case target abi of
        MINGW32 \<Rightarrow> MAX_ALIGN abi mod alignof_max_align_t abi = 0
      | STRICT_ALIGNMENT \<Rightarrow> MAX_ALIGN abi mod alignof_max_align_t abi = 0
      | OTHER_TARGET \<Rightarrow> True)"

definition sizeof_uint64_t :: "'a::len word" where
  "sizeof_uint64_t = 8"

definition sizeof_uint32_t :: "'a::len word" where
  "sizeof_uint32_t = 4"

definition SIZE_OFFSET :: "'a::len word" where
  "SIZE_OFFSET = 0"

definition ELEMENT_OFFSET :: "'a::len word abi \<Rightarrow> 'a word" where
  "ELEMENT_OFFSET abi =
     memory_get_aligned_address (SIZE_OFFSET + sizeof_uint64_t) (alignof_uint64_t abi)"

definition DATA_OFFSET :: "'a::len word abi \<Rightarrow> 'a word" where
  "DATA_OFFSET abi =
     memory_get_aligned_address (ELEMENT_OFFSET abi + sizeof_uint64_t) (MAX_ALIGN abi)"

section \<open>Memory, the platform allocator and element types\<close>

text \<open>
  Memory is byte-addressed; addresses wrap around at the width of a pointer. The null
  pointer is address 0.
\<close>

type_synonym 'a heap = "'a word \<Rightarrow> 8 word"

fun store_bytes :: "'a::len word \<Rightarrow> 8 word list \<Rightarrow> 'a heap \<Rightarrow> 'a heap" where
  "store_bytes a [] h = h"
| "store_bytes a (b # bs) h = store_bytes (a + 1) bs (h(a := b))"

definition load_bytes :: "'a::len word \<Rightarrow> nat \<Rightarrow> 'a heap \<Rightarrow> 8 word list" where
  "load_bytes a n h = map (\<lambda>i. h (a + of_nat i)) [0..<n]"

text \<open>
  The object representation of an unsigned integer of \<open>n\<close> bytes: least significant byte
  first, reversed on a big-endian processor.
\<close>

primrec le_bytes :: "nat \<Rightarrow> 'b::len word \<Rightarrow> 8 word list" where
  "le_bytes 0 v = []"
| "le_bytes (Suc n) v = ucast v # le_bytes n (drop_bit 8 v)"

primrec le_value :: "8 word list \<Rightarrow> 'b::len word" where
  "le_value [] = 0"
| "le_value (b # bs) = ucast b OR push_bit 8 (le_value bs)"

definition encode :: "'a::len word abi \<Rightarrow> nat \<Rightarrow> 'b::len word \<Rightarrow> 8 word list" where
  "encode abi n v = (if big_endian abi then rev (le_bytes n v) else le_bytes n v)"

definition decode :: "'a::len word abi \<Rightarrow> 8 word list \<Rightarrow> 'b::len word" where
  "decode abi bs = le_value (if big_endian abi then rev bs else bs)"

definition store_u64 :: "'a::len word abi \<Rightarrow> 'a word \<Rightarrow> 64 word \<Rightarrow> 'a heap \<Rightarrow> 'a heap" where
  "store_u64 abi a v h = store_bytes a (encode abi 8 v) h"


definition store_u32 :: "'a::len word abi \<Rightarrow> 'a word \<Rightarrow> 32 word \<Rightarrow> 'a heap \<Rightarrow> 'a heap" where
  "store_u32 abi a v h = store_bytes a (encode abi 4 v) h"

definition load_u32 :: "'a::len word abi \<Rightarrow> 'a word \<Rightarrow> 'a heap \<Rightarrow> 32 word" where
  "load_u32 abi a h = decode abi (load_bytes a 4 h)"

text \<open>
  What the program does to its environment, in order: calls of the platform's \<open>malloc\<close>
  (with the size asked for and the address returned, 0 when it fails) and \<open>free\<close>, and
  runs of an element type's default constructor and destructor on the object at an
  address.
\<close>

datatype 'p event =
    Malloc 'p 'p
  | Free 'p
  | Construct 'p
  | Destruct 'p

text \<open>
  The state, over the type of addresses: the heap, the blocks obtained from the platform
  allocator and not yet released (start and size in bytes, the latest first), the events
  so far and \<open>Memory::alloc_count\<close>. The byte counters \<open>mem_usage\<close> and \<open>max_usage\<close> exist
  under \<open>DEBUG_ENABLED\<close> only; the model is of a build without it.
\<close>

record 'p memory =
  heap :: "'p \<Rightarrow> 8 word"
  blocks :: "('p \<times> 'p) list"
  trace :: "'p event list"
  alloc_count :: "64 word"

text \<open>
  An object of \<open>n\<close> bytes at address \<open>a\<close> lies in the block that starts at \<open>base\<close>: the block
  is live, and the object ends, counted in bytes from the start of the block, within the
  size that the platform allocator was asked for.
\<close>

definition in_block :: "'a::len word memory \<Rightarrow> 'a word \<Rightarrow> 'a word \<Rightarrow> 'a word \<Rightarrow> bool" where
  "in_block m base a n =
     (case map_of (blocks m) base of
        None \<Rightarrow> False
      | Some sz \<Rightarrow> uint (a - base) + uint n \<le> uint sz)"

text \<open>
  The one error of the model. C++ gives no meaning to the construction of an object
  outside the storage obtained for it (on a machine the stores fault or overwrite other
  blocks); the model stops there with \<open>Out_of_bounds\<close> instead of a state.
\<close>

datatype error = Out_of_bounds

text \<open>
  The platform's \<open>malloc\<close> is a parameter: from the events so far and the size asked for
  to the address of the block, or 0.
\<close>

type_synonym 'a malloc = "'a word event list \<Rightarrow> 'a word \<Rightarrow> 'a word"

text \<open>
  The template parameter \<open>T\<close>: its size, the two type traits the templates test, and what
  its default constructor and its destructor do to the heap when run on the object at an
  address.
\<close>

record 'p elem_type =
  sizeof :: 'p
  trivially_constructible :: bool
  trivially_destructible :: bool
  constructor :: "'p \<Rightarrow> ('p \<Rightarrow> 8 word) \<Rightarrow> ('p \<Rightarrow> 8 word)"
  destructor :: "'p \<Rightarrow> ('p \<Rightarrow> 8 word) \<Rightarrow> ('p \<Rightarrow> 8 word)"


section \<open>Memory::alloc_static, free_static and alloc_aligned_static\<close>

text \<open>
  Modelled from the spec: \<open>Memory::alloc_static\<close>, which memory.h declares and memory.cpp
  (not among the sources) defines. Section 4.1 of the specification: with the pad flag
  set it reserves the header region and skips past it before returning the data pointer,
  and leaves the header for the caller to populate; it returns null when the platform
  allocator cannot satisfy the request; a successful allocation is counted (section 3).
\<close>

definition alloc_static ::
  "'a::len word abi \<Rightarrow> 'a malloc \<Rightarrow> 'a word \<Rightarrow> bool \<Rightarrow> 'a word memory \<Rightarrow> 'a word \<times> 'a word memory" where
  "alloc_static abi malloc p_bytes p_pad_align m =
     (let request = p_bytes + (if p_pad_align then DATA_OFFSET abi else 0);
          mem = malloc (trace m) request;
          m1 = m\<lparr>trace := trace m @ [Malloc request mem]\<rparr>
      in if mem = 0 then (0, m1)
         else (if p_pad_align then mem + DATA_OFFSET abi else mem,
               m1\<lparr>blocks := (mem, request) # blocks m1, alloc_count := alloc_count m1 + 1\<rparr>))"


text \<open>
  Modelled from the spec: \<open>Memory::alloc_aligned_static\<close>, declared in memory.h and
  defined in memory.cpp. Section 3 of the specification and the comment above the
  declaration: one block of \<open>p_bytes + p_alignment - 1 + sizeof(uint32_t)\<close> bytes; the
  pointer is moved past the offset field until the alignment is satisfied; the offset
  from the real start of the block is stored in the four bytes before the returned
  pointer; null when the platform allocator fails.
\<close>

definition alloc_aligned_static ::
  "'a::len word abi \<Rightarrow> 'a malloc \<Rightarrow> 'a word \<Rightarrow> 'a word \<Rightarrow> 'a word memory \<Rightarrow> 'a word \<times> 'a word memory" where
  "alloc_aligned_static abi malloc p_bytes p_alignment m =
     (let request = p_bytes + p_alignment - 1 + sizeof_uint32_t;
          p1 = malloc (trace m) request;
          m1 = m\<lparr>trace := trace m @ [Malloc request p1]\<rparr>
      in if p1 = 0 then (0, m1)
         else let p2 = memory_get_aligned_address (p1 + sizeof_uint32_t) p_alignment;
                  m2 = m1\<lparr>heap := store_u32 abi (p2 - sizeof_uint32_t) (ucast (p2 - p1)) (heap m1),
                          blocks := (p1, request) # blocks m1,
                          alloc_count := alloc_count m1 + 1\<rparr>
              in (p2, m2))"

section \<open>Typed arrays: memnew_arr_template, memarr_len, memdelete_arr\<close>

text \<open>\<open>_get_element_count_ptr\<close> (the leading underscore is dropped).\<close>

definition get_element_count_ptr :: "'a::len word abi \<Rightarrow> 'a word \<Rightarrow> 'a word" where
  "get_element_count_ptr abi p_ptr = p_ptr - DATA_OFFSET abi + ELEMENT_OFFSET abi"

text \<open>
  \<open>::new (&elems[i]) T\<close>: the default constructor runs on the storage of element \<open>i\<close> of
  the array at \<open>elems\<close>. The block of the array is the one that \<open>alloc_static\<close> obtained
  for it, which starts \<open>DATA_OFFSET\<close> bytes before \<open>elems\<close>; an element that does not lie
  in it is out of bounds. What the constructor does to the heap is the element type's.
\<close>

definition placement_new ::
  "'a::len word abi \<Rightarrow> 'a word elem_type \<Rightarrow> 'a word \<Rightarrow> 'a word \<Rightarrow> 'a word memory
     \<Rightarrow> error + 'a word memory" where
  "placement_new abi T elems a m =
     (if in_block m (elems - DATA_OFFSET abi) a (sizeof T)
      then Inr (m\<lparr>heap := constructor T a (heap m), trace := trace m @ [Construct a]\<rparr>)
      else Inl Out_of_bounds)"


text \<open>The loop \<open>for (size_t i = 0; i < p_elements; i++)\<close> of \<open>memnew_arr_template\<close>.\<close>

function construct_loop ::
  "'a::len word abi \<Rightarrow> 'a word elem_type \<Rightarrow> 'a word \<Rightarrow> 'a word \<Rightarrow> 'a word \<Rightarrow> 'a word memory
     \<Rightarrow> error + 'a word memory" where
  "construct_loop abi T elems i p_elements m =
     (if i < p_elements
      then (case placement_new abi T elems (elems + i * sizeof T) m of
              Inl e \<Rightarrow> Inl e
            | Inr m' \<Rightarrow> construct_loop abi T elems (i + 1) p_elements m')
      else Inr m)"
  by pat_completeness auto
termination
proof (relation "measure (\<lambda>(abi, T, elems, i, p_elements, m). unat p_elements - unat i)")
  show "wf (measure (\<lambda>(abi, T, elems, i, p_elements, m). unat p_elements - unat i))" by simp
next
  fix abi :: "'a word abi" and T :: "'a word elem_type" and elems i p_elements :: "'a word"
    and m m' :: "'a word memory"
  assume "i < p_elements"
  then have lt: "unat i < unat p_elements" by (simp add: word_less_nat_alt)
  have "unat p_elements < 2 ^ LENGTH('a)" by (rule unsigned_less)
  moreover have "unat (1 :: 'a word) = 1" by simp
  ultimately have "unat i + unat (1 :: 'a word) < 2 ^ LENGTH('a)" using lt by linarith
  then have "unat (i + 1) = unat i + unat (1 :: 'a word)" by (rule unat_add_lem [THEN iffD1])
  then have "unat (i + 1) = unat i + 1" by simp
  with lt show "((abi, T, elems, i + 1, p_elements, m'), (abi, T, elems, i, p_elements, m))
      \<in> measure (\<lambda>(abi, T, elems, i, p_elements, m). unat p_elements - unat i)"
    by simp
qed

declare construct_loop.simps [simp del]

text \<open>
  \<open>memnew_arr_template<T>(p_elements)\<close>. \<open>ERR_FAIL_NULL_V\<close> returns the null pointer when
  the allocation failed (the message it prints is not modelled). The element count is
  converted from \<open>size_t\<close> to \<open>uint64_t\<close> when it is stored. The call ends in
  \<open>Out_of_bounds\<close> when an element to construct does not lie in the block.
\<close>

definition memnew_arr_template ::
  "'a::len word abi \<Rightarrow> 'a malloc \<Rightarrow> 'a word elem_type \<Rightarrow> 'a word \<Rightarrow> 'a word memory
     \<Rightarrow> error + 'a word \<times> 'a word memory" where
  "memnew_arr_template abi malloc T p_elements m =
     (if p_elements = 0 then Inr (0, m)
      else let len = sizeof T * p_elements;
               (mem, m1) = alloc_static abi malloc len True m
           in if mem = 0 then Inr (0, m1)
              else let elem_count_ptr = get_element_count_ptr abi mem;
                       m2 = m1\<lparr>heap := store_u64 abi elem_count_ptr (ucast p_elements) (heap m1)\<rparr>
                   in if \<not> trivially_constructible T
                      then (case construct_loop abi T mem 0 p_elements m2 of
                              Inl e \<Rightarrow> Inl e
                            | Inr m3 \<Rightarrow> Inr (mem, m3))
                      else Inr (mem, m2))"





section \<open>Example targets, element types and states\<close>

text \<open>64-bit x86 (little-endian, 16-byte \<open>max_align_t\<close>) and 32-bit MinGW.\<close>

definition x86_64 :: "64 word abi" where
  "x86_64 = \<lparr>target = OTHER_TARGET, alignof_max_align_t = 16, alignof_uint64_t = 8,
     big_endian = False\<rparr>"

definition mingw32 :: "32 word abi" where
  "mingw32 = \<lparr>target = MINGW32, alignof_max_align_t = 8, alignof_uint64_t = 8,
     big_endian = False\<rparr>"



text \<open>A fresh state (every byte \<open>0x55\<close>) and a platform allocator that answers \<open>0x1000\<close>.\<close>

definition fresh :: "'a::len word memory" where
  "fresh = \<lparr>heap = (\<lambda>_. 0x55), blocks = [], trace = [], alloc_count = 0\<rparr>"

definition malloc_at_0x1000 :: "'a::len malloc" where
  "malloc_at_0x1000 tr request = 0x1000"

text \<open>A platform allocator of a 64-bit target that answers \<open>2 ^ 32\<close>.\<close>

definition malloc_at_4G :: "64 malloc" where
  "malloc_at_4G tr request = 0x100000000"

section \<open>SpinLock (spin_lock.h), the build with threads\<close>

text \<open>
  The class of the branch that is neither Apple's nor without threads: one
  \<open>std::atomic<bool> locked\<close>, \<open>False\<close> for free and \<open>True\<close> for held. The memory orders
  that the source passes to the atomic operations are kept as labels of the operations;
  the operations themselves act on the flag one at a time (an interleaving of the
  threads' atomic operations).
\<close>

datatype memory_order = memory_order_relaxed | memory_order_acquire | memory_order_release

text \<open>
  What one step of a thread does: \<open>compare_exchange_weak\<close> with its outcome and the order
  that applies to that outcome, the call of \<open>_cpu_pause()\<close> (the pause or yield instruction
  that the branch for the architecture contains; a compiler barrier alone on the generic
  branch), a load with the value read, a store with the value written.
\<close>

datatype action =
    Compare_exchange_weak bool memory_order
  | Cpu_pause
  | Load bool memory_order
  | Store bool memory_order

text \<open>
  The control points of \<open>lock()\<close>: at the compare-and-swap at the top of \<open>while (true)\<close>, at
  \<open>_cpu_pause()\<close> in the \<open>do\<close> loop, at the load of its \<open>while\<close> condition, and after
  \<open>break\<close>.
\<close>

datatype lock_pc = Try_exchange | Pause | Reload | Returned

text \<open>
  One step of \<open>lock()\<close> from a control point, given the flag: the action, the flag after
  it, and the next control point; \<open>None\<close> once \<open>lock()\<close> has returned.
  \<open>compare_exchange_weak(expected = false, true, acquire, relaxed)\<close> succeeds only when the
  flag is free, and may fail spuriously even then: that choice is the first argument.
\<close>

fun lock_step :: "bool \<Rightarrow> bool \<Rightarrow> lock_pc \<Rightarrow> (action \<times> bool \<times> lock_pc) option" where
  "lock_step spurious locked Try_exchange =
     (if locked = False \<and> \<not> spurious
      then Some (Compare_exchange_weak True memory_order_acquire, True, Returned)
      else Some (Compare_exchange_weak False memory_order_relaxed, locked, Pause))"
| "lock_step spurious locked Pause = Some (Cpu_pause, locked, Reload)"
| "lock_step spurious locked Reload =
     Some (Load locked memory_order_relaxed, locked, if locked then Pause else Try_exchange)"
| "lock_step spurious locked Returned = None"

text \<open>\<open>unlock()\<close>: \<open>locked.store(false, std::memory_order_release)\<close>.\<close>

definition unlock_step :: "bool \<Rightarrow> action \<times> bool" where
  "unlock_step locked = (Store False memory_order_release, False)"

text \<open>
  \<open>lock()\<close> run by one thread for a number of steps while nothing else touches the flag
  (no spurious failure): the actions, the flag and the control point at the end.
\<close>

fun lock_alone :: "nat \<Rightarrow> bool \<Rightarrow> lock_pc \<Rightarrow> action list \<times> bool \<times> lock_pc" where
  "lock_alone 0 locked pc = ([], locked, pc)"
| "lock_alone (Suc n) locked pc =
     (case lock_step False locked pc of
        None \<Rightarrow> ([], locked, pc)
      | Some (a, locked', pc') \<Rightarrow>
          (case lock_alone n locked' pc' of (as, r) \<Rightarrow> (a # as, r)))"

section \<open>Threads that increment a shared counter under the lock\<close>

text \<open>
  The scenario of section 8 of the specification: every thread runs a number of cycles
  of \<open>lock()\<close>, increment the shared counter, \<open>unlock()\<close>. The increment is not atomic: the
  thread reads the counter into a temporary and writes the temporary plus one. A thread
  is inside \<open>lock()\<close>, has read the counter, is about to store into the flag in
  \<open>unlock()\<close>, or is done; with \<open>In_lock Returned\<close> it is about to read the counter.
\<close>

datatype pc = In_lock lock_pc | Increment | In_unlock | Done

record thread =
  pc :: pc
  tmp :: nat
  remaining :: nat

record system =
  locked :: bool
  counter :: nat
  threads :: "thread list"

definition start :: "nat \<Rightarrow> pc" where
  "start cycles = (if cycles = 0 then Done else In_lock Try_exchange)"

text \<open>One step of a thread on the flag and the counter.\<close>

fun thread_step :: "bool \<Rightarrow> thread \<Rightarrow> bool \<Rightarrow> nat \<Rightarrow> thread \<times> bool \<times> nat" where
  "thread_step spurious t l c =
     (case pc t of
        In_lock Returned \<Rightarrow> (t\<lparr>pc := Increment, tmp := c\<rparr>, l, c)
      | In_lock p \<Rightarrow>
          (case lock_step spurious l p of
             None \<Rightarrow> (t, l, c)
           | Some (a, l', p') \<Rightarrow> (t\<lparr>pc := In_lock p'\<rparr>, l', c))
      | Increment \<Rightarrow> (t\<lparr>pc := In_unlock\<rparr>, l, tmp t + 1)
      | In_unlock \<Rightarrow>
          (t\<lparr>pc := start (remaining t - 1), remaining := remaining t - 1\<rparr>,
           snd (unlock_step l), c)
      | Done \<Rightarrow> (t, l, c))"

text \<open>
  The scheduler picks the thread that moves and whether a compare-and-swap, if that is the
  step, fails spuriously. A pick outside the list of threads is no step.
\<close>

definition step :: "nat \<times> bool \<Rightarrow> system \<Rightarrow> system" where
  "step choice s =
     (case choice of (i, spurious) \<Rightarrow>
        if i < length (threads s)
        then (case thread_step spurious (threads s ! i) (locked s) (counter s) of
                (t', l', c') \<Rightarrow> \<lparr>locked = l', counter = c', threads = (threads s)[i := t']\<rparr>)
        else s)"

definition run :: "(nat \<times> bool) list \<Rightarrow> system \<Rightarrow> system" where
  "run schedule s = fold step schedule s"

definition init :: "nat \<Rightarrow> nat \<Rightarrow> system" where
  "init n cycles =
     \<lparr>locked = False, counter = 0,
      threads = replicate n \<lparr>pc = start cycles, tmp = 0, remaining = cycles\<rparr>\<rparr>"

definition all_done :: "system \<Rightarrow> bool" where
  "all_done s = list_all (\<lambda>t. pc t = Done) (threads s)"

text \<open>
  A thread holds the lock from the return of \<open>lock()\<close> to the store of \<open>unlock()\<close>; the
  increments it has made so far, out of \<open>cycles\<close> cycles.
\<close>

definition holds :: "thread \<Rightarrow> bool" where
  "holds t = (pc t = In_lock Returned \<or> pc t = Increment \<or> pc t = In_unlock)"

definition increments :: "nat \<Rightarrow> thread \<Rightarrow> nat" where
  "increments cycles t = (cycles - remaining t) + (if pc t = In_unlock then 1 else 0)"

text \<open>
  The schedule that runs the threads one after the other: each cycle of a thread alone
  takes four steps (compare-and-swap, read, write, store).
\<close>

definition sequential :: "nat \<Rightarrow> nat \<Rightarrow> (nat \<times> bool) list" where
  "sequential n cycles = concat (map (\<lambda>i. replicate (4 * cycles) (i, False)) [0..<n])"

text \<open>
  A schedule for two threads with two cycles each. Thread 1 fails its first
  compare-and-swap while thread 0 holds the lock, and spins; later thread 0 suffers a
  spurious failure while the lock is free for an instant and thread 1 gets in first.
\<close>

definition contended :: "(nat \<times> bool) list" where
  "contended =
     [(0, False), (1, False), (0, False), (1, False), (1, False), (0, False), (1, False),
      (1, False), (0, False), (1, False), (1, False), (0, True), (1, False), (1, False),
      (0, False), (0, False), (1, False), (1, False), (1, False), (0, False), (1, False),
      (0, False), (1, False), (0, False), (1, False), (0, False), (0, False), (0, False),
      (0, False), (0, False)]"

section \<open>SpinLock, the build without threads\<close>

text \<open>
  Without \<open>THREADS_ENABLED\<close> the class has two member functions with empty bodies. The
  state is whatever the program can observe; a calling sequence is a list of calls.
\<close>

definition lock_no_threads :: "'s \<Rightarrow> 's" where
  "lock_no_threads s = s"

definition unlock_no_threads :: "'s \<Rightarrow> 's" where
  "unlock_no_threads s = s"

datatype call = Lock | Unlock

fun calls_no_threads :: "call list \<Rightarrow> 's \<Rightarrow> 's" where
  "calls_no_threads [] s = s"
| "calls_no_threads (Lock # cs) s = calls_no_threads cs (lock_no_threads s)"
| "calls_no_threads (Unlock # cs) s = calls_no_threads cs (unlock_no_threads s)"

section \<open>The invariant of the counting threads\<close>

text \<open>
  In every reachable state: the number of threads that hold the lock is 1 when the flag
  is held and 0 when it is free; the counter is the sum of the increments made; a thread
  that has read the counter holds its current value; no thread has more cycles left than
  it started with, and exactly the threads with none left are done.
\<close>

definition invariant :: "nat \<Rightarrow> system \<Rightarrow> bool" where
  "invariant cycles s =
     (sum_list (map (\<lambda>t. if holds t then 1 else 0) (threads s)) = (if locked s then 1 else (0::nat))
      \<and> counter s = sum_list (map (increments cycles) (threads s))
      \<and> list_all (\<lambda>t. (pc t = Increment \<longrightarrow> tmp t = counter s)
                       \<and> remaining t \<le> cycles
                       \<and> (pc t = Done) = (remaining t = 0)) (threads s))"

section \<open>Facts about rounding\<close>

lemma aligned_address_exact:
  "a mod n = 0 \<Longrightarrow> memory_get_aligned_address a n = a"
  by (simp add: memory_get_aligned_address_def)

lemma aligned_address_up:
  "a mod n \<noteq> 0 \<Longrightarrow> memory_get_aligned_address a n = a + n - a mod n"
  by (simp add: memory_get_aligned_address_def Let_def)

lemma unat_pow2: "k < LENGTH('a) \<Longrightarrow> unat (2 ^ k :: 'a::len word) = 2 ^ k"
  by (simp add: of_nat_inverse)

lemma and_not_mask_push_drop:
  "(x :: 'a::len word) AND NOT (mask k) = push_bit k (drop_bit k x)"
  by (rule bit_eqI) (auto simp: bit_simps)

lemma and_not_mask_minus: "(x :: 'a::len word) AND NOT (mask k) = x - (x AND mask k)"
proof -
  have "push_bit k (drop_bit k x) + take_bit k x = x" by (rule bits_ident)
  then have "push_bit k (drop_bit k x) = x - take_bit k x"
    by (metis add_diff_cancel_right')
  then show ?thesis by (simp add: and_not_mask_push_drop take_bit_eq_mask)
qed

lemma unat_and_mask: "unat ((x :: 'a::len word) AND mask k) = unat x mod 2 ^ k"
proof -
  have "unat (x AND mask k) = unat (take_bit k x)" by (simp only: take_bit_eq_mask)
  also have "\<dots> = take_bit k (unat x)" by (rule unsigned_take_bit_eq)
  also have "\<dots> = unat x mod 2 ^ k" by (rule take_bit_eq_mod)
  finally show ?thesis .
qed

lemma unat_and_not_mask:
  "unat ((x :: 'a::len word) AND NOT (mask k)) = unat x - unat x mod 2 ^ k"
proof -
  have "x AND mask k \<le> x" by (rule word_and_le2)
  then show ?thesis by (simp add: and_not_mask_minus unat_sub unat_and_mask)
qed

lemma unat_aligned_address_up:
  fixes a n :: "'a::len word"
  assumes "a mod n \<noteq> 0" "unat a + unat n \<le> 2 ^ LENGTH('a)"
  shows "unat (memory_get_aligned_address a n) = unat a + unat n - unat a mod unat n"
proof -
  have m: "unat (a mod n) = unat a mod unat n" by (simp add: unat_mod_distrib)
  have mpos: "0 < unat a mod unat n" using assms(1) m
    by (metis unat_eq_zero neq0_conv)
  have le: "a mod n \<le> a"
    by (simp add: word_le_nat_alt m)
  have e1: "a + n - a mod n = (a - a mod n) + n" by simp
  have e2: "unat (a - a mod n) = unat a - unat a mod unat n"
    using le m by (simp add: unat_sub)
  have "unat (a - a mod n) + unat n < 2 ^ LENGTH('a)"
    using e2 mpos assms(2) mod_less_eq_dividend [of "unat a" "unat n"] by linarith
  then have e3: "unat ((a - a mod n) + n) = unat (a - a mod n) + unat n"
    by (simp add: unat_add_lem)
  have e4: "unat (a + n - a mod n) = unat ((a - a mod n) + n)" by (simp only: e1)
  have e5: "memory_get_aligned_address a n = a + n - a mod n"
    using assms(1) by (rule aligned_address_up)
  have "unat a mod unat n \<le> unat a" by simp
  then show ?thesis unfolding e5 e4 e3 e2 by linarith
qed

lemma nat_round_mod:
  fixes a n :: nat
  assumes "0 < n"
  shows "(a + n - 1) mod n = (if a mod n = 0 then n - 1 else a mod n - 1)"
proof (cases "a mod n = 0")
  case True
  then have "n dvd a" by auto
  then have "n dvd (a + n - 1) - (n - 1)" using assms by simp
  moreover have "n - 1 < n" "n - 1 \<le> a + n - 1" using assms by simp_all
  ultimately have "(a + n - 1) mod n = n - 1" by (rule_tac mod_nat_eqI)
  with True show ?thesis by simp
next
  case False
  then have pos: "0 < a mod n" by simp
  have le: "a mod n \<le> a" by simp
  have "(a + n - 1) - (a mod n - 1) = (a - a mod n) + n" using pos le by linarith
  moreover have "n dvd (a - a mod n) + n" by (rule dvd_add) (simp_all add: dvd_minus_mod)
  ultimately have "n dvd (a + n - 1) - (a mod n - 1)" by simp
  moreover have "a mod n - 1 < n"
    using assms pos by (meson less_imp_diff_less mod_less_divisor)
  moreover have "a mod n - 1 \<le> a + n - 1" using le by linarith
  ultimately have "(a + n - 1) mod n = a mod n - 1" by (rule_tac mod_nat_eqI)
  with False show ?thesis by simp
qed

lemma nat_round_down:
  fixes a n :: nat
  assumes "0 < n"
  shows "(a + n - 1) - (a + n - 1) mod n = (if a mod n = 0 then a else a + n - a mod n)"
proof (cases "a mod n = 0")
  case True
  then have "(a + n - 1) mod n = n - 1"
    unfolding nat_round_mod [OF assms] by (rule if_P)
  moreover have "a + n - 1 - (n - 1) = a" using assms by linarith
  ultimately show ?thesis using True by simp
next
  case False
  then have "(a + n - 1) mod n = a mod n - 1"
    unfolding nat_round_mod [OF assms] by (rule if_not_P)
  moreover have "a + n - 1 - (a mod n - 1) = a + n - a mod n" using False by linarith
  ultimately show ?thesis using False by simp
qed

lemma aligned_address_ge:
  fixes a n :: "'a::len word"
  assumes "n \<noteq> 0" "unat a + unat n \<le> 2 ^ LENGTH('a)"
  shows "a \<le> memory_get_aligned_address a n"
proof (cases "a mod n = 0")
  case True
  then show ?thesis by (simp add: aligned_address_exact)
next
  case False
  have "0 < unat n" using assms(1) by (simp add: unat_gt_0)
  then have "unat a mod unat n < unat n" by simp
  then have "unat a \<le> unat a + unat n - unat a mod unat n" by linarith
  then show ?thesis
    by (simp add: word_le_nat_alt unat_aligned_address_up [OF False assms(2)])
qed

lemma aligned_address_least:
  fixes a n m :: "'a::len word"
  assumes "n \<noteq> 0" "unat a + unat n \<le> 2 ^ LENGTH('a)" "m mod n = 0" "a \<le> m"
  shows "memory_get_aligned_address a n \<le> m"
proof (cases "a mod n = 0")
  case True
  then show ?thesis using assms(4) by (simp add: aligned_address_exact)
next
  case False
  have npos: "0 < unat n" using assms(1) by (simp add: unat_gt_0)
  have "unat (a mod n) \<noteq> 0" using False by (simp add: unat_eq_zero)
  then have rpos: "0 < unat a mod unat n" by (simp add: unat_mod_distrib)
  have "unat (m mod n) = 0" using assms(3) by simp
  then have dm: "unat n dvd unat m" by (simp add: unat_mod_distrib dvd_eq_mod_eq_0)
  have db: "unat n dvd unat a - unat a mod unat n" by (rule dvd_minus_mod)
  have am: "unat a \<le> unat m" using assms(4) by (simp add: word_le_nat_alt)
  have lt: "unat a - unat a mod unat n < unat m"
    using am rpos mod_less_eq_dividend [of "unat a" "unat n"] by linarith
  have "unat n dvd unat m - (unat a - unat a mod unat n)"
    using dm db by (rule dvd_diff_nat)
  moreover have "0 < unat m - (unat a - unat a mod unat n)" using lt by simp
  ultimately have "unat n \<le> unat m - (unat a - unat a mod unat n)"
    by (rule dvd_imp_le)
  then have "unat a + unat n - unat a mod unat n \<le> unat m"
    using lt mod_less_eq_dividend [of "unat a" "unat n"] by linarith
  then show ?thesis
    by (simp add: word_le_nat_alt unat_aligned_address_up [OF False assms(2)])
qed

lemma aligned_address_pow2_mod:
  fixes a :: "'a::len word"
  assumes "k < LENGTH('a)"
  shows "memory_get_aligned_address a (2 ^ k) mod 2 ^ k = 0"
proof (cases "a mod 2 ^ k = 0")
  case True
  then show ?thesis by (simp add: aligned_address_exact)
next
  case False
  have pos: "(0::'a word) < 2 ^ k" using assms by (simp add: word_2p_lem word_size)
  have md: "a mod 2 ^ k = a AND mask k" using pos by (rule word_mod_2p_is_mask)
  have "a + 2 ^ k - a mod 2 ^ k = (a - (a AND mask k)) + 2 ^ k" by (simp add: md)
  also have "\<dots> = push_bit k (drop_bit k a) + push_bit k 1"
    by (simp add: and_not_mask_minus [symmetric] and_not_mask_push_drop push_bit_eq_mult)
  also have "\<dots> = push_bit k (drop_bit k a + 1)" by (simp add: push_bit_add)
  finally have r: "memory_get_aligned_address a (2 ^ k) = push_bit k (drop_bit k a + 1)"
    using False by (simp add: aligned_address_up)
  have "push_bit k (drop_bit k a + 1) mod 2 ^ k = push_bit k (drop_bit k a + 1) AND mask k"
    using pos by (rule word_mod_2p_is_mask)
  also have "\<dots> = take_bit k (push_bit k (drop_bit k a + 1))"
    by (simp only: take_bit_eq_mask)
  also have "\<dots> = 0" by (simp add: take_bit_push_bit)
  finally show ?thesis by (simp only: r)
qed

lemma unat_aligned_address:
  fixes a n :: "'a::len word"
  assumes "n \<noteq> 0" "unat a + unat n \<le> 2 ^ LENGTH('a)"
  shows "unat (memory_get_aligned_address a n) =
           (if unat a mod unat n = 0 then unat a else unat a + unat n - unat a mod unat n)"
proof (cases "a mod n = 0")
  case True
  then have "unat (a mod n) = 0" by simp
  then have "unat a mod unat n = 0" by (simp add: unat_mod_distrib)
  then show ?thesis using True by (simp add: aligned_address_exact)
next
  case False
  then have "unat (a mod n) \<noteq> 0" by (simp add: unat_eq_zero)
  then have "unat a mod unat n \<noteq> 0" by (simp add: unat_mod_distrib)
  then show ?thesis by (simp add: unat_aligned_address_up [OF False assms(2)])
qed

lemma pow2_word_neq_0: "k < LENGTH('a) \<Longrightarrow> (2 ^ k :: 'a::len word) \<noteq> 0"
proof
  assume "k < LENGTH('a)" and "(2 ^ k :: 'a word) = 0"
  then have "unat (2 ^ k :: 'a word) = 2 ^ k" "unat (2 ^ k :: 'a word) = 0"
    by (simp_all add: unat_pow2)
  then show False by simp
qed

lemma pow2_sum_fits:
  assumes "i < l" "k < l"
  shows "(2::nat) ^ i + 2 ^ k \<le> 2 ^ l"
proof -
  have "(2::nat) ^ i \<le> 2 ^ (l - 1)" "(2::nat) ^ k \<le> 2 ^ (l - 1)"
    using assms by (simp_all add: power_increasing)
  moreover have "(2::nat) ^ (l - 1) + 2 ^ (l - 1) = 2 ^ l"
    using assms(1) by (cases l) simp_all
  ultimately show ?thesis by linarith
qed

lemma pow2_mod_pow2_word:
  assumes "j \<le> i" "i < LENGTH('a)"
  shows "(2 ^ i :: 'a::len word) mod 2 ^ j = 0"
proof -
  have "(2::nat) ^ j dvd 2 ^ i" using assms(1) by (rule le_imp_power_dvd)
  then have "(2::nat) ^ i mod 2 ^ j = 0" by (simp add: dvd_eq_mod_eq_0)
  then have "unat ((2 ^ i :: 'a word) mod 2 ^ j) = 0"
    using assms by (simp add: unat_mod_distrib unat_pow2)
  then show ?thesis by (simp add: unat_eq_zero)
qed

lemma ELEMENT_OFFSET_eq:
  fixes abi :: "'a::len word abi"
  assumes "3 < LENGTH('a)" "alignof_uint64_t abi = 2 ^ j" "j \<le> 3"
  shows "ELEMENT_OFFSET abi = 8"
proof -
  have "(2 ^ 3 :: 'a word) mod 2 ^ j = 0" using assms(3,1) by (rule pow2_mod_pow2_word)
  then have "memory_get_aligned_address (2 ^ 3 :: 'a word) (2 ^ j) = 2 ^ 3"
    by (rule aligned_address_exact)
  then show ?thesis
    by (simp add: ELEMENT_OFFSET_def SIZE_OFFSET_def sizeof_uint64_t_def assms(2))
qed

lemma MAX_ALIGN_pow2:
  fixes abi :: "'a::len word abi"
  assumes "4 < LENGTH('a)" "alignof_max_align_t abi = 2 ^ k" "k < LENGTH('a)"
  shows "\<exists>i < LENGTH('a). MAX_ALIGN abi = 2 ^ i"
proof (cases "target abi")
  case OTHER_TARGET
  then show ?thesis using assms(2,3) by (auto simp: MAX_ALIGN_def)
next
  case MINGW32
  then have "MAX_ALIGN abi = 2 ^ 4" by (simp add: MAX_ALIGN_def)
  then show ?thesis using assms(1) by blast
next
  case STRICT_ALIGNMENT
  then have "MAX_ALIGN abi = 2 ^ 4" by (simp add: MAX_ALIGN_def)
  then show ?thesis using assms(1) by blast
qed

lemma DATA_OFFSET_props:
  fixes abi :: "'a::len word abi"
  assumes "4 < LENGTH('a)" "alignof_max_align_t abi = 2 ^ k" "k < LENGTH('a)"
    and "alignof_uint64_t abi = 2 ^ j" "j \<le> 3"
  shows "16 \<le> DATA_OFFSET abi" and "DATA_OFFSET abi mod MAX_ALIGN abi = 0"
proof -
  have E: "ELEMENT_OFFSET abi = 8" using assms(1,4,5) by (simp add: ELEMENT_OFFSET_eq)
  obtain i where i: "i < LENGTH('a)" "MAX_ALIGN abi = 2 ^ i"
    using MAX_ALIGN_pow2 [OF assms(1,2,3)] by blast
  have D: "DATA_OFFSET abi = memory_get_aligned_address (2 ^ 4) (2 ^ i)"
    by (simp add: DATA_OFFSET_def E sizeof_uint64_t_def i(2))
  show "DATA_OFFSET abi mod MAX_ALIGN abi = 0"
    unfolding D i(2) using i(1) by (rule aligned_address_pow2_mod)
  have "unat (2 ^ 4 :: 'a word) + unat (2 ^ i :: 'a word) \<le> 2 ^ LENGTH('a)"
    using assms(1) i(1) by (simp only: unat_pow2 pow2_sum_fits)
  with pow2_word_neq_0 [OF i(1)]
  have "(2 ^ 4 :: 'a word) \<le> memory_get_aligned_address (2 ^ 4) (2 ^ i)"
    by (rule aligned_address_ge)
  then show "16 \<le> DATA_OFFSET abi" by (simp add: D)
qed

section \<open>The claims about rounding and the layout constants\<close>

text \<open>
  Claim C2. On every target (the value 16 forced on 32-bit MinGW and on the
  strict-alignment architectures, \<open>alignof(max_align_t)\<close> elsewhere), where alignments
  are powers of two and \<open>uint64_t\<close> is aligned to at most its size, \<open>ELEMENT_OFFSET\<close> is
  the rounding of \<open>SIZE_OFFSET + 8\<close> to 8, and \<open>DATA_OFFSET\<close> is at least 16 and a
  multiple of \<open>MAX_ALIGN\<close>. The width of \<open>size_t\<close> is any width that can hold 16.
\<close>

theorem DATA_OFFSET_invariant:
  fixes abi :: "'a::len word abi"
  assumes "4 < LENGTH('a)"
    and "alignof_max_align_t abi = 2 ^ k" and "k < LENGTH('a)"
    and "alignof_uint64_t abi = 2 ^ j" and "j \<le> 3"
  shows "ELEMENT_OFFSET abi = memory_get_aligned_address (SIZE_OFFSET + 8) 8
       \<and> DATA_OFFSET abi = memory_get_aligned_address (ELEMENT_OFFSET abi + 8) (MAX_ALIGN abi)
       \<and> 16 \<le> DATA_OFFSET abi
       \<and> DATA_OFFSET abi mod MAX_ALIGN abi = 0"
proof -
  have "(2 ^ 3 :: 'a word) mod 2 ^ 3 = 0" by simp
  then have "memory_get_aligned_address (2 ^ 3 :: 'a word) (2 ^ 3) = 2 ^ 3"
    by (rule aligned_address_exact)
  then have "ELEMENT_OFFSET abi = memory_get_aligned_address (SIZE_OFFSET + 8) 8"
    using assms(1,4,5) by (simp add: ELEMENT_OFFSET_eq SIZE_OFFSET_def)
  moreover have "DATA_OFFSET abi =
      memory_get_aligned_address (ELEMENT_OFFSET abi + 8) (MAX_ALIGN abi)"
    by (simp add: DATA_OFFSET_def sizeof_uint64_t_def)
  ultimately show ?thesis using DATA_OFFSET_props [OF assms] by simp
qed

text \<open>Witnesses: 64-bit x86 (16-byte \<open>max_align_t\<close>) and 32-bit MinGW (forced 16).\<close>

theorem DATA_OFFSET_invariant_witness:
  "ELEMENT_OFFSET \<lparr>target = OTHER_TARGET, alignof_max_align_t = (16::64 word),
       alignof_uint64_t = 8, big_endian = False\<rparr> = 8
   \<and> DATA_OFFSET \<lparr>target = OTHER_TARGET, alignof_max_align_t = (16::64 word),
       alignof_uint64_t = 8, big_endian = False\<rparr> = 16
   \<and> (16::64 word) \<le> DATA_OFFSET \<lparr>target = OTHER_TARGET, alignof_max_align_t = (16::64 word),
       alignof_uint64_t = 8, big_endian = False\<rparr>
   \<and> DATA_OFFSET \<lparr>target = MINGW32, alignof_max_align_t = (8::32 word),
       alignof_uint64_t = 8, big_endian = False\<rparr> mod 16 = 0"
  using DATA_OFFSET_invariant [of "\<lparr>target = OTHER_TARGET, alignof_max_align_t = (16::64 word),
       alignof_uint64_t = 8, big_endian = False\<rparr>" 4 3]
    DATA_OFFSET_invariant [of "\<lparr>target = MINGW32, alignof_max_align_t = (8::32 word),
       alignof_uint64_t = 8, big_endian = False\<rparr>" 3 3]
  by (simp add: DATA_OFFSET_def ELEMENT_OFFSET_def MAX_ALIGN_def SIZE_OFFSET_def
      sizeof_uint64_t_def memory_get_aligned_address_def)

text \<open>
  Claim C3, as the code has it. For an address \<open>a\<close> and a power-of-two alignment \<open>n\<close>
  such that \<open>a + n\<close> does not exceed \<open>2 ^ w\<close> (\<open>w\<close> the width of \<open>size_t\<close>), the result is a
  multiple of \<open>n\<close>, is at least \<open>a\<close>, is below every other such multiple, and is \<open>a\<close>
  itself when \<open>a mod n = 0\<close> and \<open>a + n - a mod n\<close> otherwise.
\<close>

theorem aligned_address_least_multiple:
  fixes a n :: "'a::len word"
  assumes "n = 2 ^ k" and "k < LENGTH('a)" and "unat a + unat n \<le> 2 ^ LENGTH('a)"
  shows "memory_get_aligned_address a n mod n = 0
       \<and> a \<le> memory_get_aligned_address a n
       \<and> (\<forall>m. m mod n = 0 \<and> a \<le> m \<longrightarrow> memory_get_aligned_address a n \<le> m)
       \<and> memory_get_aligned_address a n = (if a mod n = 0 then a else a + n - a mod n)"
proof -
  have n0: "n \<noteq> 0" unfolding assms(1) using assms(2) by (rule pow2_word_neq_0)
  have "memory_get_aligned_address a n mod n = 0"
    unfolding assms(1) using assms(2) by (rule aligned_address_pow2_mod)
  moreover have "a \<le> memory_get_aligned_address a n"
    using n0 assms(3) by (rule aligned_address_ge)
  moreover have "\<forall>m. m mod n = 0 \<and> a \<le> m \<longrightarrow> memory_get_aligned_address a n \<le> m"
    using aligned_address_least [OF n0 assms(3)] by auto
  moreover have "memory_get_aligned_address a n = (if a mod n = 0 then a else a + n - a mod n)"
    by (simp add: memory_get_aligned_address_def Let_def)
  ultimately show ?thesis by blast
qed

theorem aligned_address_least_multiple_witness:
  "memory_get_aligned_address (17::64 word) (2 ^ 4) mod 2 ^ 4 = 0
   \<and> (17::64 word) \<le> memory_get_aligned_address 17 (2 ^ 4)
   \<and> memory_get_aligned_address (17::64 word) (2 ^ 4) \<le> 32
   \<and> memory_get_aligned_address (17::64 word) (2 ^ 4) = 32"
  using aligned_address_least_multiple [of "2 ^ 4 :: 64 word" 4 17]
  by (simp add: memory_get_aligned_address_def)

text \<open>
  Claim C3 as stated puts no bound on the address. At the last address of a 64-bit
  address space and alignment 2 the sum wraps around: the result is 0, which is below
  the address.
\<close>

theorem aligned_address_wraps_counterexample:
  "memory_get_aligned_address (0xFFFFFFFFFFFFFFFF :: 64 word) (2 ^ 1) = 0
   \<and> \<not> (0xFFFFFFFFFFFFFFFF :: 64 word) \<le> memory_get_aligned_address 0xFFFFFFFFFFFFFFFF (2 ^ 1)"
  by (simp add: memory_get_aligned_address_def)

text \<open>
  Claim C10. For an address \<open>a\<close> (whatever \<open>alloca\<close> returned) and a power-of-two
  alignment \<open>n\<close> with \<open>a + n\<close> not overflowing, the mask-based rounding of \<open>SAFE_ALLOCA\<close>
  equals \<open>_memory_get_aligned_address a n\<close>; the result \<open>r\<close> satisfies \<open>a \<le> r < a + n\<close>, and
  rounding \<open>r\<close> again gives \<open>r\<close>.
\<close>

theorem SAFE_ALLOCA_agrees:
  fixes a n :: "'a::len word"
  assumes "n = 2 ^ k" and "k < LENGTH('a)" and "unat a + unat n < 2 ^ LENGTH('a)"
  shows "SAFE_ALLOCA (\<lambda>_. a) m_size n = memory_get_aligned_address a n
       \<and> a \<le> memory_get_aligned_address a n
       \<and> memory_get_aligned_address a n < a + n
       \<and> memory_get_aligned_address (memory_get_aligned_address a n) n
           = memory_get_aligned_address a n"
proof -
  let ?r = "memory_get_aligned_address a n"
  have un: "unat n = 2 ^ k" unfolding assms(1) using assms(2) by (rule unat_pow2)
  have n0: "n \<noteq> 0" unfolding assms(1) using assms(2) by (rule pow2_word_neq_0)
  have fits: "unat a + unat n \<le> 2 ^ LENGTH('a)" using assms(3) by simp
  have ur: "unat ?r = (if unat a mod 2 ^ k = 0 then unat a
                        else unat a + 2 ^ k - unat a mod 2 ^ k)"
    using unat_aligned_address [OF n0 fits] by (simp only: un)
  have "1 \<le> n" using n0 by (simp add: word_le_nat_alt unat_gt_0 Suc_leI)
  then have un1: "unat (n - 1) = 2 ^ k - 1" by (simp add: unat_sub un)
  have "unat a + unat (n - 1) < 2 ^ LENGTH('a)" using assms(3) un un1 by linarith
  then have "unat (a + (n - 1)) = unat a + unat (n - 1)" by (simp add: unat_add_lem)
  then have ux: "unat (a + (n - 1)) = unat a + 2 ^ k - 1" using un1 by simp
  have "n - 1 = mask k" by (simp add: assms(1) mask_eq_decr_exp)
  then have "unat (SAFE_ALLOCA (\<lambda>_. a) m_size n)
      = unat (a + (n - 1)) - unat (a + (n - 1)) mod 2 ^ k"
    by (simp add: SAFE_ALLOCA_def unat_and_not_mask)
  also have "\<dots> = (unat a + 2 ^ k - 1) - (unat a + 2 ^ k - 1) mod 2 ^ k"
    by (simp only: ux)
  also have "\<dots> = unat ?r"
    unfolding ur by (rule nat_round_down) simp
  finally have eq: "SAFE_ALLOCA (\<lambda>_. a) m_size n = ?r" by (simp add: word_unat_eq_iff)
  have ge: "a \<le> ?r" using n0 fits by (rule aligned_address_ge)
  have "0 < unat a mod 2 ^ k \<or> unat a mod 2 ^ k = 0" by auto
  then have "unat ?r < unat a + 2 ^ k"
    unfolding ur using mod_less_eq_dividend [of "unat a" "2 ^ k"] by auto
  moreover have "unat (a + n) = unat a + 2 ^ k"
    using assms(3) unat_add_lem [of a n] un by presburger
  ultimately have lt: "?r < a + n" by (simp add: word_less_nat_alt)
  have "?r mod n = 0" unfolding assms(1) using assms(2) by (rule aligned_address_pow2_mod)
  then have idem: "memory_get_aligned_address ?r n = ?r" by (rule aligned_address_exact)
  show ?thesis using eq ge lt idem by blast
qed

theorem SAFE_ALLOCA_agrees_witness:
  "SAFE_ALLOCA (\<lambda>_. 4099 :: 64 word) 24 (2 ^ 4) = memory_get_aligned_address 4099 (2 ^ 4)
   \<and> memory_get_aligned_address (4099 :: 64 word) (2 ^ 4) = 4112
   \<and> (4099 :: 64 word) \<le> memory_get_aligned_address 4099 (2 ^ 4)
   \<and> memory_get_aligned_address (4099 :: 64 word) (2 ^ 4) < 4099 + 2 ^ 4
   \<and> memory_get_aligned_address (memory_get_aligned_address (4099 :: 64 word) (2 ^ 4)) (2 ^ 4)
       = memory_get_aligned_address 4099 (2 ^ 4)"
  using SAFE_ALLOCA_agrees [of "2 ^ 4 :: 64 word" 4 4099 24]
  by (simp add: memory_get_aligned_address_def)

section \<open>Facts about the heap\<close>

lemma store_bytes_other:
  "(\<forall>i<length bs. q \<noteq> a + of_nat i) \<Longrightarrow> store_bytes a bs h q = h q"
proof (induction bs arbitrary: a h)
  case Nil
  then show ?case by simp
next
  case (Cons b bs)
  have "\<forall>i<length bs. q \<noteq> (a + 1) + of_nat i"
  proof (intro allI impI)
    fix i assume "i < length bs"
    then have "q \<noteq> a + of_nat (Suc i)" using Cons.prems by auto
    then show "q \<noteq> (a + 1) + of_nat i" by (simp add: ac_simps)
  qed
  then have "store_bytes (a + 1) bs (h(a := b)) q = (h(a := b)) q" by (rule Cons.IH)
  moreover have "q \<noteq> a" using Cons.prems by force
  ultimately show ?case by simp
qed

lemma store_bytes_at:
  fixes a :: "'a::len word"
  shows "i < length bs \<Longrightarrow> length bs \<le> 2 ^ LENGTH('a) \<Longrightarrow>
    store_bytes a bs h (a + of_nat i) = bs ! i"
proof (induction bs arbitrary: a h i)
  case Nil
  then show ?case by simp
next
  case (Cons b bs)
  show ?case
  proof (cases i)
    case 0
    have "\<forall>j<length bs. a \<noteq> (a + 1) + of_nat j"
    proof (intro allI impI)
      fix j assume "j < length bs"
      then have "0 < Suc j" "Suc j < 2 ^ LENGTH('a)" using Cons.prems(2) by simp_all
      then have "(of_nat (Suc j) :: 'a word) \<noteq> 0" by (rule of_nat_neq_0)
      then show "a \<noteq> (a + 1) + of_nat j" by (simp add: ac_simps)
    qed
    then have "store_bytes (a + 1) bs (h(a := b)) a = (h(a := b)) a"
      by (rule store_bytes_other)
    then show ?thesis using 0 by simp
  next
    case (Suc i')
    then have "i' < length bs" "length bs \<le> 2 ^ LENGTH('a)" using Cons.prems by simp_all
    then have "store_bytes (a + 1) bs (h(a := b)) ((a + 1) + of_nat i') = bs ! i'"
      by (rule Cons.IH)
    then show ?thesis using Suc by (simp add: ac_simps)
  qed
qed

lemma load_store_bytes:
  fixes a :: "'a::len word"
  assumes "length bs = n" "n \<le> 2 ^ LENGTH('a)"
  shows "load_bytes a n (store_bytes a bs h) = bs"
  using assms by (simp add: load_bytes_def list_eq_iff_nth_eq store_bytes_at)


lemma length_le_bytes: "length (le_bytes n v) = n"
  by (induction n arbitrary: v) simp_all

lemma le_value_le_bytes:
  "(le_value (le_bytes n v) :: 'b word) = take_bit (8 * n) (v :: 'b::len word)"
proof (induction n arbitrary: v)
  case 0
  then show ?case by simp
next
  case (Suc n)
  show ?case
    apply (simp add: Suc.IH)
    apply (rule bit_eqI)
    apply (auto simp: bit_simps)
    done
qed

lemma decode_encode:
  fixes v :: "'b::len word"
  assumes "LENGTH('b) \<le> 8 * n"
  shows "decode abi (encode abi n v) = v"
proof -
  have "take_bit (8 * n) v = v" using assms by (simp add: take_bit_word_eq_self)
  then show ?thesis by (simp add: decode_def encode_def le_value_le_bytes)
qed

lemma length_encode: "length (encode abi n v) = n"
  by (simp add: encode_def length_le_bytes)


lemma load_store_u32:
  fixes a :: "'a::len word"
  assumes "2 \<le> LENGTH('a)"
  shows "load_u32 abi a (store_u32 abi a v h) = v"
proof -
  have "(2::nat) ^ 2 \<le> 2 ^ LENGTH('a)" using assms by (rule power_increasing) simp
  then have "(4::nat) \<le> 2 ^ LENGTH('a)" by simp
  then have "load_bytes a 4 (store_bytes a (encode abi 4 v) h) = encode abi 4 v"
    by (simp add: load_store_bytes length_encode)
  then show ?thesis by (simp add: load_u32_def store_u32_def decode_encode)
qed


section \<open>The header lies outside the elements\<close>














lemma example_targets_compile: "static_assert_MAX_ALIGN x86_64" "static_assert_MAX_ALIGN mingw32"
  by (simp_all add: static_assert_MAX_ALIGN_def x86_64_def mingw32_def MAX_ALIGN_def)

section \<open>Facts about the counting threads\<close>

lemma sum_list_map_update:
  fixes f :: "'a \<Rightarrow> nat"
  shows "i < length ts \<Longrightarrow>
    sum_list (map f (ts[i := t'])) + f (ts ! i) = sum_list (map f ts) + f t'"
proof (induction ts arbitrary: i)
  case Nil
  then show ?case by simp
next
  case (Cons t ts)
  then show ?case by (cases i) (simp_all add: add.assoc add.left_commute)
qed

lemma single_holder:
  assumes "sum_list (map (\<lambda>t. if holds t then 1 else 0) ts) \<le> (1::nat)"
    and "i < length ts" and "holds (ts ! i)" and "j < length ts" and "j \<noteq> i"
  shows "\<not> holds (ts ! j)"
proof
  assume hj: "holds (ts ! j)"
  let ?f = "\<lambda>t. if holds t then 1 else (0::nat)"
  let ?ts = "ts[i := (ts ! j)\<lparr>pc := Done\<rparr>]"
  have nh: "\<not> holds ((ts ! j)\<lparr>pc := Done\<rparr>)" by (simp add: holds_def)
  have "sum_list (map ?f ?ts) + ?f (ts ! i) = sum_list (map ?f ts) + ?f ((ts ! j)\<lparr>pc := Done\<rparr>)"
    using assms(2) by (rule sum_list_map_update)
  then have "sum_list (map ?f ?ts) + 1 = sum_list (map ?f ts)"
    using assms(3) nh by simp
  then have z: "sum_list (map ?f ?ts) = 0" using assms(1) by linarith
  have "?ts ! j \<in> set ?ts" using assms(4) by simp
  then have "?f (?ts ! j) = 0" using z by (simp add: sum_list_eq_0_iff)
  then show False using assms(5) hj by simp
qed

lemma holder_has_flag:
  assumes "invariant cycles s" and "i < length (threads s)" and "holds (threads s ! i)"
  shows "locked s"
proof (rule ccontr)
  assume "\<not> locked s"
  then have "sum_list (map (\<lambda>t. if holds t then 1 else (0::nat)) (threads s)) = 0"
    using assms(1) by (simp add: invariant_def)
  moreover have "threads s ! i \<in> set (threads s)" using assms(2) by simp
  ultimately show False using assms(3) by (auto simp: sum_list_eq_0_iff)
qed

lemma invariant_thread:
  assumes "invariant cycles s" and "i < length (threads s)"
  shows "pc (threads s ! i) = Increment \<longrightarrow> tmp (threads s ! i) = counter s"
    and "remaining (threads s ! i) \<le> cycles"
    and "(pc (threads s ! i) = Done) = (remaining (threads s ! i) = 0)"
  using assms by (simp_all add: invariant_def list_all_length)

lemma invariant_update:
  assumes inv: "invariant cycles s" and i: "i < length (threads s)"
    and a: "(if holds t' then 1 else 0) + (if locked s then 1 else 0)
              = (if holds (threads s ! i) then 1 else 0) + (if l' then 1 else (0::nat))"
    and b: "c' + increments cycles (threads s ! i) = counter s + increments cycles t'"
    and c: "pc t' = Increment \<longrightarrow> tmp t' = c'" "remaining t' \<le> cycles"
           "(pc t' = Done) = (remaining t' = 0)"
    and d: "c' = counter s \<or> holds (threads s ! i)"
  shows "invariant cycles \<lparr>locked = l', counter = c', threads = (threads s)[i := t']\<rparr>"
proof -
  let ?ts = "threads s" and ?h = "\<lambda>t. if holds t then 1 else (0::nat)"
  have h: "sum_list (map ?h ?ts) = (if locked s then 1 else 0)"
    and n: "counter s = sum_list (map (increments cycles) ?ts)"
    using inv by (simp_all add: invariant_def)
  have "sum_list (map ?h (?ts[i := t'])) + ?h (?ts ! i) = sum_list (map ?h ?ts) + ?h t'"
    using i by (rule sum_list_map_update)
  then have 1: "sum_list (map ?h (?ts[i := t'])) = (if l' then 1 else 0)"
    using h a by (simp split: if_splits)
  have "sum_list (map (increments cycles) (?ts[i := t'])) + increments cycles (?ts ! i)
      = sum_list (map (increments cycles) ?ts) + increments cycles t'"
    using i by (rule sum_list_map_update)
  then have 2: "c' = sum_list (map (increments cycles) (?ts[i := t']))"
    using n b by linarith
  have 3: "list_all (\<lambda>t. (pc t = Increment \<longrightarrow> tmp t = c') \<and> remaining t \<le> cycles
        \<and> (pc t = Done) = (remaining t = 0)) (?ts[i := t'])"
    unfolding list_all_length
  proof (intro allI impI)
    fix j assume j: "j < length (?ts[i := t'])"
    show "(pc (?ts[i := t'] ! j) = Increment \<longrightarrow> tmp (?ts[i := t'] ! j) = c')
        \<and> remaining (?ts[i := t'] ! j) \<le> cycles
        \<and> (pc (?ts[i := t'] ! j) = Done) = (remaining (?ts[i := t'] ! j) = 0)"
    proof (cases "j = i")
      case True
      then show ?thesis using i c by simp
    next
      case False
      have jl: "j < length ?ts" using j by simp
      have "pc (?ts ! j) = Increment \<longrightarrow> tmp (?ts ! j) = c'"
      proof
        assume inc: "pc (?ts ! j) = Increment"
        then have hj: "holds (?ts ! j)" by (simp add: holds_def)
        have "sum_list (map ?h ?ts) \<le> 1" using h by simp
        then have "\<not> holds (?ts ! i)" using single_holder [OF _ jl hj i] False by auto
        then have "c' = counter s" using d by simp
        then show "tmp (?ts ! j) = c'" using invariant_thread(1) [OF inv jl] inc by simp
      qed
      then show ?thesis
        using False invariant_thread(2,3) [OF inv jl] by simp
    qed
  qed
  show ?thesis using 1 2 3 by (simp add: invariant_def)
qed


lemma step_invariant:
  assumes inv: "invariant cycles s"
  shows "invariant cycles (step choice s)"
proof -
  obtain i spurious where ch: "choice = (i, spurious)" by (cases choice)
  show ?thesis
  proof (cases "i < length (threads s)")
    case False
    then show ?thesis using inv by (simp add: step_def ch)
  next
    case i: True
    let ?t = "threads s ! i"
    note th = invariant_thread [OF inv i]
    note upd = invariant_update [OF inv i]
    show ?thesis
    proof (cases "pc ?t")
      case (In_lock p)
      show ?thesis
      proof (cases p)
        case Try_exchange
        show ?thesis
        proof (cases "locked s = False \<and> \<not> spurious")
          case True
          have "invariant cycles \<lparr>locked = True, counter = counter s,
              threads = (threads s)[i := ?t\<lparr>pc := In_lock Returned\<rparr>]\<rparr>"
            using True In_lock Try_exchange th
            by (intro upd) (simp_all add: holds_def increments_def)
          then show ?thesis using i In_lock Try_exchange True by (simp add: step_def ch)
        next
          case False
          have "invariant cycles \<lparr>locked = locked s, counter = counter s,
              threads = (threads s)[i := ?t\<lparr>pc := In_lock Pause\<rparr>]\<rparr>"
            using In_lock Try_exchange th
            by (intro upd) (simp_all add: holds_def increments_def)
          then show ?thesis using i In_lock Try_exchange False by (auto simp: step_def ch)
        qed
      next
        case Pause
        have "invariant cycles \<lparr>locked = locked s, counter = counter s,
            threads = (threads s)[i := ?t\<lparr>pc := In_lock Reload\<rparr>]\<rparr>"
          using In_lock Pause th
          by (intro upd) (simp_all add: holds_def increments_def)
        then show ?thesis using i In_lock Pause by (simp add: step_def ch)
      next
        case Reload
        have "invariant cycles \<lparr>locked = locked s, counter = counter s,
            threads = (threads s)[i := ?t\<lparr>pc := In_lock (if locked s then Pause else Try_exchange)\<rparr>]\<rparr>"
          using In_lock Reload th
          by (intro upd) (simp_all add: holds_def increments_def)
        then show ?thesis using i In_lock Reload by (simp add: step_def ch)
      next
        case Returned
        have "invariant cycles \<lparr>locked = locked s, counter = counter s,
            threads = (threads s)[i := ?t\<lparr>pc := Increment, tmp := counter s\<rparr>]\<rparr>"
          using In_lock Returned th
          by (intro upd) (simp_all add: holds_def increments_def)
        then show ?thesis using i In_lock Returned by (simp add: step_def ch)
      qed
    next
      case Increment
      have "invariant cycles \<lparr>locked = locked s, counter = tmp ?t + 1,
          threads = (threads s)[i := ?t\<lparr>pc := In_unlock\<rparr>]\<rparr>"
        using Increment th
        by (intro upd) (simp_all add: holds_def increments_def)
      then show ?thesis using i Increment by (simp add: step_def ch)
    next
      case In_unlock
      then have "holds ?t" by (simp add: holds_def)
      then have l: "locked s" using inv i by (rule_tac holder_has_flag)
      have r: "0 < remaining ?t" "remaining ?t \<le> cycles" using In_unlock th by simp_all
      have "invariant cycles \<lparr>locked = False, counter = counter s,
          threads = (threads s)[i := ?t\<lparr>pc := start (remaining ?t - 1),
                                         remaining := remaining ?t - 1\<rparr>]\<rparr>"
        using In_unlock l r
        by (intro upd) (auto simp: holds_def increments_def start_def)
      then show ?thesis using i In_unlock by (simp add: step_def ch unlock_step_def)
    next
      case Done
      have "invariant cycles \<lparr>locked = locked s, counter = counter s,
          threads = (threads s)[i := ?t]\<rparr>"
        using Done th
        by (intro upd) (simp_all add: holds_def increments_def)
      then show ?thesis using i Done by (simp add: step_def ch)
    qed
  qed
qed

lemma run_invariant: "invariant cycles s \<Longrightarrow> invariant cycles (run schedule s)"
  unfolding run_def by (induction schedule arbitrary: s) (simp_all add: step_invariant)

lemma init_invariant: "invariant cycles (init n cycles)"
  by (simp add: invariant_def init_def holds_def increments_def start_def list_all_length)

lemma length_threads_step: "length (threads (step choice s)) = length (threads s)"
  by (cases choice) (simp add: step_def split: prod.splits)

lemma length_threads_run: "length (threads (run schedule s)) = length (threads s)"
  unfolding run_def by (induction schedule arbitrary: s) (simp_all add: length_threads_step)

lemma sum_list_all_equal:
  "\<forall>x \<in> set xs. f x = (k::nat) \<Longrightarrow> sum_list (map f xs) = length xs * k"
  by (induction xs) simp_all

lemma lock_alone_held:
  "p \<noteq> Returned \<Longrightarrow>
     fst (snd (lock_alone n True p)) = True \<and> snd (snd (lock_alone n True p)) \<noteq> Returned"
proof (induction n arbitrary: p)
  case 0
  then show ?case by simp
next
  case (Suc n)
  show ?case
  proof (cases p)
    case Try_exchange
    then show ?thesis using Suc.IH [of Pause] by (auto split: prod.splits)
  next
    case Pause
    then show ?thesis using Suc.IH [of Reload] by (auto split: prod.splits)
  next
    case Reload
    then show ?thesis using Suc.IH [of Pause] by (auto split: prod.splits)
  next
    case Returned
    then show ?thesis using Suc.prems by simp
  qed
qed

lemma run_append: "run (xs @ ys) s = run ys (run xs s)"
  by (simp add: run_def)

lemma run_Cons: "run (x # xs) s = run xs (step x s)"
  by (simp add: run_def)

lemma run_Nil: "run [] s = s"
  by (simp add: run_def)

lemma one_cycle:
  assumes "\<not> locked s" and "k < length (threads s)"
    and "pc (threads s ! k) = In_lock Try_exchange" and "remaining (threads s ! k) = Suc r"
  shows "\<not> locked (run (replicate 4 (k, False)) s)
       \<and> length (threads (run (replicate 4 (k, False)) s)) = length (threads s)
       \<and> pc (threads (run (replicate 4 (k, False)) s) ! k) = start r
       \<and> remaining (threads (run (replicate 4 (k, False)) s) ! k) = r
       \<and> (\<forall>j. j \<noteq> k \<longrightarrow> threads (run (replicate 4 (k, False)) s) ! j = threads s ! j)"
proof -
  have r4: "replicate 4 (k, False) = [(k, False), (k, False), (k, False), (k, False)]"
    by (simp add: eval_nat_numeral)
  show ?thesis
    using assms unfolding r4
    by (simp add: run_Cons run_Nil step_def unlock_step_def)
qed

lemma solo_finishes:
  assumes "\<not> locked s" and "k < length (threads s)"
    and "pc (threads s ! k) = start r" and "remaining (threads s ! k) = r"
  shows "\<not> locked (run (replicate (4 * r) (k, False)) s)
       \<and> length (threads (run (replicate (4 * r) (k, False)) s)) = length (threads s)
       \<and> pc (threads (run (replicate (4 * r) (k, False)) s) ! k) = Done
       \<and> (\<forall>j. j \<noteq> k \<longrightarrow> threads (run (replicate (4 * r) (k, False)) s) ! j = threads s ! j)"
  using assms
proof (induction r arbitrary: s)
  case 0
  then show ?case by (simp add: run_Nil start_def)
next
  case (Suc r)
  let ?s1 = "run (replicate 4 (k, False)) s"
  have pc0: "pc (threads s ! k) = In_lock Try_exchange" using Suc.prems(3) by (simp add: start_def)
  note c = one_cycle [OF Suc.prems(1,2) pc0 Suc.prems(4)]
  have k1: "k < length (threads ?s1)" using c Suc.prems(2) by simp
  note ih = Suc.IH [of ?s1, OF _ k1]
  have split: "replicate (4 * Suc r) (k, False) = replicate 4 (k, False) @ replicate (4 * r) (k, False)"
    by (simp add: replicate_add [symmetric])
  show ?case unfolding split run_append using ih c by simp
qed

lemma sequential_finishes:
  assumes "m \<le> length (threads s)" and "\<not> locked s"
    and "\<forall>j < m. pc (threads s ! j) = start cycles \<and> remaining (threads s ! j) = cycles"
  shows "\<not> locked (run (sequential m cycles) s)
       \<and> length (threads (run (sequential m cycles) s)) = length (threads s)
       \<and> (\<forall>j < m. pc (threads (run (sequential m cycles) s) ! j) = Done)
       \<and> (\<forall>j \<ge> m. threads (run (sequential m cycles) s) ! j = threads s ! j)"
  using assms
proof (induction m)
  case 0
  then show ?case by (simp add: sequential_def run_Nil)
next
  case (Suc m)
  let ?s1 = "run (sequential m cycles) s"
  have ih: "\<not> locked ?s1" "length (threads ?s1) = length (threads s)"
    "\<forall>j < m. pc (threads ?s1 ! j) = Done" "\<forall>j \<ge> m. threads ?s1 ! j = threads s ! j"
    using Suc.IH Suc.prems by simp_all
  have m: "m < length (threads ?s1)" using ih(2) Suc.prems(1) by simp
  have "threads ?s1 ! m = threads s ! m" using ih(4) by simp
  then have st: "pc (threads ?s1 ! m) = start cycles" "remaining (threads ?s1 ! m) = cycles"
    using Suc.prems(3) by simp_all
  note f = solo_finishes [OF ih(1) m st]
  have split: "sequential (Suc m) cycles = sequential m cycles @ replicate (4 * cycles) (m, False)"
    by (simp add: sequential_def)
  show ?case unfolding split run_append
  proof (intro conjI allI impI)
    show "\<not> locked (run (replicate (4 * cycles) (m, False)) ?s1)" using f by simp
    show "length (threads (run (replicate (4 * cycles) (m, False)) ?s1)) = length (threads s)"
      using f ih(2) by simp
  next
    fix j assume "j < Suc m"
    then show "pc (threads (run (replicate (4 * cycles) (m, False)) ?s1) ! j) = Done"
      using f ih(3) by (cases "j = m") auto
  next
    fix j assume "Suc m \<le> j"
    then show "threads (run (replicate (4 * cycles) (m, False)) ?s1) ! j = threads s ! j"
      using f ih(4) by auto
  qed
qed

lemma sequential_all_done: "all_done (run (sequential n cycles) (init n cycles))"
proof -
  let ?s = "init n cycles"
  have "n \<le> length (threads ?s)" "\<not> locked ?s"
    "\<forall>j < n. pc (threads ?s ! j) = start cycles \<and> remaining (threads ?s ! j) = cycles"
    by (simp_all add: init_def)
  then have "length (threads (run (sequential n cycles) ?s)) = length (threads ?s)"
    "\<forall>j < n. pc (threads (run (sequential n cycles) ?s) ! j) = Done"
    using sequential_finishes [of n ?s cycles] by simp_all
  then show ?thesis by (simp add: all_done_def list_all_length init_def)
qed

section \<open>The claims about the spin lock\<close>

text \<open>
  Claim C5. The flag has the two values free and held. A step of \<open>lock()\<close> changes the
  flag exactly when it is a successful compare-and-swap, which is labelled acquire, finds
  the flag free, leaves it held and is the only step after which \<open>lock()\<close> has returned.
  A compare-and-swap on a held flag (or one that fails spuriously) is labelled relaxed
  and leads to the pause; the pause leads to a relaxed load; the load leads back to the
  pause while it reads held and to the compare-and-swap once it reads free. \<open>unlock()\<close> is
  one store of free, labelled release. A thread alone on a free lock gets it with its
  first step; on a held lock it spins for as long as it runs.
\<close>

theorem spin_lock_transitions:
  "(lock_step spurious l p = Some (a, l', p') \<longrightarrow>
        (l' \<noteq> l) = (a = Compare_exchange_weak True memory_order_acquire)
      \<and> (a = Compare_exchange_weak True memory_order_acquire \<longrightarrow>
            p = Try_exchange \<and> l = False \<and> l' = True)
      \<and> (p' = Returned) = (a = Compare_exchange_weak True memory_order_acquire)
      \<and> (p = Try_exchange \<and> (l \<or> spurious) \<longrightarrow>
            a = Compare_exchange_weak False memory_order_relaxed \<and> p' = Pause)
      \<and> (p = Pause \<longrightarrow> a = Cpu_pause \<and> p' = Reload)
      \<and> (p = Reload \<longrightarrow>
            a = Load l memory_order_relaxed
            \<and> p' = (if l then Pause else Try_exchange)))
   \<and> (lock_step spurious l p = None) = (p = Returned)
   \<and> unlock_step l = (Store False memory_order_release, False)
   \<and> lock_alone (Suc n) False Try_exchange
       = ([Compare_exchange_weak True memory_order_acquire], True, Returned)
   \<and> (p \<noteq> Returned \<longrightarrow>
        fst (snd (lock_alone n True p)) = True \<and> snd (snd (lock_alone n True p)) \<noteq> Returned)"
proof -
  have D: "lock_alone (Suc n) False Try_exchange
      = ([Compare_exchange_weak True memory_order_acquire], True, Returned)"
    by (cases n) simp_all
  have B: "(lock_step spurious l p = None) = (p = Returned)"
    by (cases p) auto
  have C: "unlock_step l = (Store False memory_order_release, False)"
    by (simp add: unlock_step_def)
  have A: "lock_step spurious l p = Some (a, l', p') \<longrightarrow>
        (l' \<noteq> l) = (a = Compare_exchange_weak True memory_order_acquire)
      \<and> (a = Compare_exchange_weak True memory_order_acquire \<longrightarrow>
            p = Try_exchange \<and> l = False \<and> l' = True)
      \<and> (p' = Returned) = (a = Compare_exchange_weak True memory_order_acquire)
      \<and> (p = Try_exchange \<and> (l \<or> spurious) \<longrightarrow>
            a = Compare_exchange_weak False memory_order_relaxed \<and> p' = Pause)
      \<and> (p = Pause \<longrightarrow> a = Cpu_pause \<and> p' = Reload)
      \<and> (p = Reload \<longrightarrow>
            a = Load l memory_order_relaxed
            \<and> p' = (if l then Pause else Try_exchange))"
    by (cases p) (auto split: if_splits)
  have E: "p \<noteq> Returned \<longrightarrow>
      fst (snd (lock_alone n True p)) = True \<and> snd (snd (lock_alone n True p)) \<noteq> Returned"
    using lock_alone_held [of p n] by blast
  show ?thesis by (rule conjI [OF A conjI [OF B conjI [OF C conjI [OF D E]]]])
qed

theorem spin_lock_transitions_witness:
  "lock_step False False Try_exchange
     = Some (Compare_exchange_weak True memory_order_acquire, True, Returned)
   \<and> lock_step False True Try_exchange
     = Some (Compare_exchange_weak False memory_order_relaxed, True, Pause)
   \<and> lock_step False True Pause = Some (Cpu_pause, True, Reload)
   \<and> lock_step False True Reload = Some (Load True memory_order_relaxed, True, Pause)
   \<and> lock_step False False Reload = Some (Load False memory_order_relaxed, False, Try_exchange)
   \<and> unlock_step True = (Store False memory_order_release, False)
   \<and> lock_alone 5 True Try_exchange
     = ([Compare_exchange_weak False memory_order_relaxed, Cpu_pause,
         Load True memory_order_relaxed, Cpu_pause, Load True memory_order_relaxed],
        True, Pause)"
  using spin_lock_transitions [of False False Try_exchange
      "Compare_exchange_weak True memory_order_acquire" True Returned 4]
    spin_lock_transitions [of False True Reload "Load True memory_order_relaxed" True Pause 5]
  by (simp add: unlock_step_def eval_nat_numeral)

text \<open>
  Claim C6. For \<open>n\<close> threads that each run \<open>cycles\<close> cycles of \<open>lock()\<close>, increment the
  shared counter, \<open>unlock()\<close>: there is a schedule after which all threads are done, and
  under every schedule of their atomic steps (spurious failures of the compare-and-swap
  included) after which all threads are done, the counter is \<open>n * cycles\<close>.
\<close>

theorem spin_lock_no_lost_update:
  "all_done (run (sequential n cycles) (init n cycles))
   \<and> (all_done (run schedule (init n cycles))
        \<longrightarrow> counter (run schedule (init n cycles)) = n * cycles)"
proof (intro conjI impI)
  show "all_done (run (sequential n cycles) (init n cycles))"
    by (rule sequential_all_done)
next
  assume fin: "all_done (run schedule (init n cycles))"
  let ?s = "run schedule (init n cycles)"
  have inv: "invariant cycles ?s" using init_invariant by (rule run_invariant)
  have len: "length (threads ?s) = n" by (simp add: length_threads_run init_def)
  have "\<forall>t \<in> set (threads ?s). increments cycles t = cycles"
  proof
    fix t assume t: "t \<in> set (threads ?s)"
    then have "pc t = Done" using fin by (simp add: all_done_def list_all_iff)
    moreover from this have "remaining t = 0"
      using inv t by (simp add: invariant_def list_all_iff)
    ultimately show "increments cycles t = cycles" by (simp add: increments_def)
  qed
  then have "sum_list (map (increments cycles) (threads ?s)) = length (threads ?s) * cycles"
    by (rule sum_list_all_equal)
  then show "counter ?s = n * cycles" using inv len by (simp add: invariant_def)
qed

theorem spin_lock_no_lost_update_witness:
  "all_done (run contended (init 2 2)) \<and> counter (run contended (init 2 2)) = 4"
proof -
  have d: "all_done (run contended (init 2 2))" by code_simp
  show ?thesis using spin_lock_no_lost_update [of 2 2 contended] d by simp
qed

text \<open>
  Claim C9. In the build without threads \<open>lock()\<close> and \<open>unlock()\<close> return the state they
  were called in, and so does every sequence of calls of the two.
\<close>

theorem spin_lock_no_threads:
  "lock_no_threads s = s \<and> unlock_no_threads s = s \<and> calls_no_threads cs s = s"
proof -
  have "calls_no_threads cs s = s"
    by (induction cs s rule: calls_no_threads.induct)
       (simp_all add: lock_no_threads_def unlock_no_threads_def)
  then show ?thesis by (simp add: lock_no_threads_def unlock_no_threads_def)
qed

section \<open>The claims about typed arrays and aligned allocation\<close>





text \<open>
  Claim C7. With an element count of zero \<open>memnew_arr_template\<close> returns the null pointer
  and the state it was given: no call of the platform allocator is recorded, and the
  heap and the allocation counter are the ones before the call.
\<close>

theorem memnew_arr_zero:
  "memnew_arr_template abi malloc T 0 m = Inr (0, m)"
  by (simp add: memnew_arr_template_def)




section \<open>Aligned allocation\<close>

lemma aligned_address_offset:
  fixes a :: "'a::len word"
  assumes "k < LENGTH('a)"
  shows "unat (memory_get_aligned_address a (2 ^ k) - a) < 2 ^ k"
proof (cases "a mod 2 ^ k = 0")
  case True
  then show ?thesis by (simp add: aligned_address_exact)
next
  case False
  let ?n = "2 ^ k :: 'a word"
  have un: "unat ?n = 2 ^ k" using assms by (rule unat_pow2)
  have m: "unat (a mod ?n) = unat a mod 2 ^ k" by (simp add: unat_mod_distrib un)
  have "unat (a mod ?n) \<noteq> 0" using False by (simp add: unat_eq_0)
  then have mpos: "0 < unat a mod 2 ^ k" using m by simp
  have mlt: "unat a mod 2 ^ k < (2 ^ k :: nat)" by simp
  have "a mod ?n \<le> ?n" using m mlt un by (simp add: word_le_nat_alt)
  then have "unat (?n - a mod ?n) = 2 ^ k - unat a mod 2 ^ k" using m un by (simp add: unat_sub)
  moreover have "memory_get_aligned_address a ?n - a = ?n - a mod ?n"
    using False by (simp add: aligned_address_up)
  ultimately show ?thesis using mpos by simp
qed

text \<open>
  Claim C4, as the model of \<open>alloc_aligned_static\<close> has it. For a positive size and a
  power-of-two alignment below \<open>2 ^ 32\<close> such that \<open>p_bytes + p_alignment - 1 + 4\<close> can be
  represented in a \<open>size_t\<close>: when \<open>alloc_aligned_static\<close> returns a non-null pointer
  \<open>p\<close>, \<open>p\<close> is a multiple of the alignment; the one block asked of the platform allocator
  has \<open>p_bytes + p_alignment - 1 + 4\<close> bytes, as a number; the four bytes before \<open>p\<close> hold,
  as a \<open>uint32_t\<close>, the number of bytes from the start of that block to \<open>p\<close>, so that \<open>p\<close>
  minus the stored offset is the start of the block; the offset is at least 4 and at
  most the alignment plus 3, and the \<open>p_bytes\<close> bytes at \<open>p\<close> end inside the block.
\<close>

theorem alloc_aligned_static_aligned:
  fixes abi :: "'a::len word abi"
  assumes "4 < LENGTH('a)"
    and "p_alignment = 2 ^ k" and "k < LENGTH('a)" and "k < 32" and "0 < p_bytes"
    and "unat p_bytes + unat p_alignment - 1 + 4 < 2 ^ LENGTH('a)"
    and "alloc_aligned_static abi malloc p_bytes p_alignment m = (p, m')" and "p \<noteq> 0"
  shows "p mod p_alignment = 0
       \<and> trace m' = trace m @ [Malloc (p_bytes + p_alignment - 1 + 4)
                                   (malloc (trace m) (p_bytes + p_alignment - 1 + 4))]
       \<and> unat (p_bytes + p_alignment - 1 + 4) = unat p_bytes + unat p_alignment - 1 + 4
       \<and> unat (load_u32 abi (p - 4) (heap m'))
           = unat (p - malloc (trace m) (p_bytes + p_alignment - 1 + 4))
       \<and> p - ucast (load_u32 abi (p - 4) (heap m'))
           = malloc (trace m) (p_bytes + p_alignment - 1 + 4)
       \<and> 4 \<le> unat (p - malloc (trace m) (p_bytes + p_alignment - 1 + 4))
       \<and> unat (p - malloc (trace m) (p_bytes + p_alignment - 1 + 4)) \<le> unat p_alignment + 3
       \<and> unat (p - malloc (trace m) (p_bytes + p_alignment - 1 + 4)) + unat p_bytes
           \<le> unat (p_bytes + p_alignment - 1 + 4)"
proof -
  let ?L = "2 ^ LENGTH('a) :: nat"
  let ?req = "p_bytes + p_alignment - 1 + 4"
  let ?p1 = "malloc (trace m) ?req"
  let ?p2 = "memory_get_aligned_address (?p1 + 4) p_alignment"
  let ?m1 = "m\<lparr>trace := trace m @ [Malloc ?req ?p1]\<rparr>"
  let ?m2 = "?m1\<lparr>heap := store_u32 abi (?p2 - 4) (ucast (?p2 - ?p1)) (heap ?m1),
                  blocks := (?p1, ?req) # blocks ?m1,
                  alloc_count := alloc_count ?m1 + 1\<rparr>"
  have r: "(p, m') = (if ?p1 = 0 then (0, ?m1) else (?p2, ?m2))"
    using assms(7)
    by (auto simp: alloc_aligned_static_def Let_def sizeof_uint32_t_def split: if_splits)
  then have p1: "?p1 \<noteq> 0" using assms(8) by (auto split: if_splits)
  then have p: "p = ?p2" and m': "m' = ?m2" using r by simp_all
  have un: "unat p_alignment = 2 ^ k" unfolding assms(2) using assms(3) by (rule unat_pow2)
  have u4: "unat (4 :: 'a word) = 4" using assms(1) unat_pow2 [of 2, where 'a='a] by simp
  have u1: "unat (1 :: 'a word) = 1" by simp
  have "unat p_bytes + unat p_alignment < ?L" using assms(6) un by simp
  then have s1: "unat (p_bytes + p_alignment) = unat p_bytes + 2 ^ k"
    using un by (simp add: unat_add_lem [THEN iffD1])
  have "0 < unat (p_bytes + p_alignment)" using s1 by simp
  then have "1 \<le> p_bytes + p_alignment" by (simp add: word_le_nat_alt)
  then have s2: "unat (p_bytes + p_alignment - 1) = unat p_bytes + 2 ^ k - 1"
    using s1 by (simp add: unat_sub)
  have "unat (p_bytes + p_alignment - 1) + unat (4 :: 'a word) < ?L"
    using assms(6) s2 un u4 by simp
  then have "unat ?req = unat (p_bytes + p_alignment - 1) + unat (4 :: 'a word)"
    by (rule unat_add_lem [THEN iffD1])
  then have req: "unat ?req = unat p_bytes + unat p_alignment - 1 + 4"
    using s2 un u4 by simp
  have pow: "(2::nat) ^ k \<le> 2 ^ (LENGTH('a) - 1)" using assms(3) by (intro power_increasing) simp_all
  have "(2::nat) ^ 4 \<le> 2 ^ (LENGTH('a) - 1)" using assms(1) by (intro power_increasing) simp_all
  then have big: "(16::nat) \<le> 2 ^ (LENGTH('a) - 1)" by simp
  have "Suc (LENGTH('a) - 1) = LENGTH('a)" using assms(1) by simp
  then have dbl: "?L = 2 * 2 ^ (LENGTH('a) - 1)" by (metis power_Suc)
  have o1: "unat (?p2 - (?p1 + 4)) < 2 ^ k"
    unfolding assms(2) using assms(3) by (rule aligned_address_offset)
  then have "unat (?p2 - (?p1 + 4)) + unat (4 :: 'a word) < ?L"
    using pow big dbl u4 by linarith
  then have "unat ((?p2 - (?p1 + 4)) + 4) = unat (?p2 - (?p1 + 4)) + unat (4 :: 'a word)"
    by (rule unat_add_lem [THEN iffD1])
  moreover have "(?p2 - (?p1 + 4)) + 4 = ?p2 - ?p1" by simp
  ultimately have off: "unat (?p2 - ?p1) = unat (?p2 - (?p1 + 4)) + 4" using u4 by simp
  have lo: "4 \<le> unat (?p2 - ?p1)" using off by simp
  have hi: "unat (?p2 - ?p1) \<le> unat p_alignment + 3" using off o1 un by simp
  have "(2::nat) ^ k \<le> 2 ^ 31" using assms(4) by (intro power_increasing) simp_all
  then have fits32: "unat (?p2 - ?p1) < 2 ^ 32" using hi un by simp
  have ld: "load_u32 abi (p - 4) (heap m') = ucast (?p2 - ?p1)"
    using assms(1) by (simp add: m' p load_store_u32)
  have st: "unat (ucast (?p2 - ?p1) :: 32 word) = unat (?p2 - ?p1)"
    using fits32 by (simp add: unsigned_ucast_eq take_bit_nat_eq_self)
  have "unat (ucast (ucast (?p2 - ?p1) :: 32 word) :: 'a word) = unat (?p2 - ?p1)"
    using fits32 by (simp add: unsigned_ucast_eq unsigned_take_bit_eq take_bit_nat_eq_self)
  then have rt: "(ucast (ucast (?p2 - ?p1) :: 32 word) :: 'a word) = ?p2 - ?p1"
    by (simp only: word_unat_eq_iff)
  have c1: "p mod p_alignment = 0"
    unfolding p assms(2) using assms(3) by (rule aligned_address_pow2_mod)
  have c2: "trace m' = trace m @ [Malloc ?req ?p1]" by (simp add: m')
  have c4: "unat (load_u32 abi (p - 4) (heap m')) = unat (p - ?p1)"
    unfolding ld st by (simp only: p)
  have c5: "p - ucast (load_u32 abi (p - 4) (heap m')) = ?p1"
    unfolding ld rt by (simp add: p)
  have c6: "4 \<le> unat (p - ?p1)" using lo by (simp only: p)
  have c7: "unat (p - ?p1) \<le> unat p_alignment + 3" using hi by (simp only: p)
  have c8: "unat (p - ?p1) + unat p_bytes \<le> unat ?req" using c7 req un by simp
  show ?thesis
    by (rule conjI [OF c1 conjI [OF c2 conjI [OF req conjI [OF c4
         conjI [OF c5 conjI [OF c6 conjI [OF c7 c8]]]]]]])
qed

theorem alloc_aligned_static_aligned_witness:
  "fst (alloc_aligned_static x86_64 malloc_at_0x1000 100 64 fresh) = 0x1040
   \<and> fst (alloc_aligned_static x86_64 malloc_at_0x1000 100 64 fresh) mod 64 = 0
   \<and> trace (snd (alloc_aligned_static x86_64 malloc_at_0x1000 100 64 fresh))
       = [Malloc 167 0x1000]
   \<and> unat (load_u32 x86_64 0x103C
        (heap (snd (alloc_aligned_static x86_64 malloc_at_0x1000 100 64 fresh)))) = 0x40
   \<and> 0x1040 - ucast (load_u32 x86_64 0x103C
        (heap (snd (alloc_aligned_static x86_64 malloc_at_0x1000 100 64 fresh))))
       = (0x1000 :: 64 word)"
proof -
  let ?r = "alloc_aligned_static x86_64 malloc_at_0x1000 100 64 fresh"
  have p: "fst ?r = 0x1040" by code_simp
  have h1: "4 < LENGTH(64)" "(64 :: 64 word) = 2 ^ 6" "(6::nat) < LENGTH(64)" "(6::nat) < 32"
    "(0 :: 64 word) < 100"
    by simp_all
  have h2: "unat (100 :: 64 word) + unat (64 :: 64 word) - 1 + 4 < 2 ^ LENGTH(64)" by simp
  have h3: "?r = (0x1040, snd ?r)" using p by (metis prod.collapse)
  have h4: "(0x1040 :: 64 word) \<noteq> 0" by simp
  have t: "trace (fresh :: 64 word memory) = []" by (simp add: fresh_def)
  show ?thesis
    using alloc_aligned_static_aligned [OF h1 h2 h3 h4]
    by (simp add: p t malloc_at_0x1000_def)
qed

text \<open>
  Claim C4 as stated covers every positive size and every power-of-two alignment, with
  the size of the block and the offset as numbers. On 64-bit x86, for 100 bytes aligned
  to \<open>2 ^ 32\<close> in a block that starts at \<open>2 ^ 32\<close>, the pointer returned is \<open>2 ^ 33\<close>,
  which is \<open>2 ^ 32\<close> bytes from the start of the block, and the four bytes before it hold
  0. For 100 bytes aligned to \<open>2 ^ 33\<close> in a block that starts at \<open>0x1000\<close>, the pointer
  returned is \<open>0x1FFFFF000\<close> bytes from the start of the block, and the four bytes before
  it hold \<open>0xFFFFF000\<close>. For \<open>2 ^ 64 - 4\<close> bytes aligned to 16 the size asked of the
  platform allocator is 15.
\<close>

theorem alloc_aligned_static_counterexample:
  "fst (alloc_aligned_static x86_64 malloc_at_4G 100 0x100000000 fresh) = 0x200000000
   \<and> fst (alloc_aligned_static x86_64 malloc_at_4G 100 0x100000000 fresh) - 0x100000000
       = 0x100000000
   \<and> load_u32 x86_64 (0x200000000 - 4)
        (heap (snd (alloc_aligned_static x86_64 malloc_at_4G 100 0x100000000 fresh))) = 0
   \<and> fst (alloc_aligned_static x86_64 malloc_at_0x1000 100 0x200000000 fresh) = 0x200000000
   \<and> fst (alloc_aligned_static x86_64 malloc_at_0x1000 100 0x200000000 fresh) - 0x1000
       = 0x1FFFFF000
   \<and> load_u32 x86_64 (0x200000000 - 4)
        (heap (snd (alloc_aligned_static x86_64 malloc_at_0x1000 100 0x200000000 fresh)))
       = 0xFFFFF000
   \<and> unat (load_u32 x86_64 (0x200000000 - 4)
        (heap (snd (alloc_aligned_static x86_64 malloc_at_0x1000 100 0x200000000 fresh))))
       \<noteq> unat (fst (alloc_aligned_static x86_64 malloc_at_0x1000 100 0x200000000 fresh)
                 - 0x1000)
   \<and> fst (alloc_aligned_static x86_64 malloc_at_0x1000 0xFFFFFFFFFFFFFFFC 16 fresh) = 0x1010
   \<and> trace (snd (alloc_aligned_static x86_64 malloc_at_0x1000 0xFFFFFFFFFFFFFFFC 16 fresh))
       = [Malloc 15 0x1000]
   \<and> unat (0xFFFFFFFFFFFFFFFC :: 64 word) + unat (16 :: 64 word) - 1 + 4
       \<noteq> unat (15 :: 64 word)"
proof -
  let ?q = "alloc_aligned_static x86_64 malloc_at_4G 100 0x100000000 fresh"
  let ?r = "alloc_aligned_static x86_64 malloc_at_0x1000 100 0x200000000 fresh"
  let ?s = "alloc_aligned_static x86_64 malloc_at_0x1000 0xFFFFFFFFFFFFFFFC 16 fresh"
  have q1: "fst ?q = 0x200000000" by code_simp
  have q2: "(0x200000000 :: 64 word) - 0x100000000 = 0x100000000" by simp
  have q3: "load_u32 x86_64 (0x200000000 - 4) (heap (snd ?q)) = 0" by code_simp
  have a: "fst ?r = 0x200000000" by code_simp
  have b: "(0x200000000 :: 64 word) - 0x1000 = 0x1FFFFF000" by simp
  have c: "load_u32 x86_64 (0x200000000 - 4) (heap (snd ?r)) = 0xFFFFF000" by code_simp
  have c': "unat (0xFFFFF000 :: 32 word) \<noteq> unat (0x1FFFFF000 :: 64 word)" by simp
  have d: "fst ?s = 0x1010" by code_simp
  have e: "trace (snd ?s) = [Malloc 15 0x1000]" by code_simp
  have f: "unat (0xFFFFFFFFFFFFFFFC :: 64 word) + unat (16 :: 64 word) - 1 + 4
      \<noteq> unat (15 :: 64 word)"
    by simp
  show ?thesis unfolding q1 q2 q3 a b c using c' d e f by (intro conjI) simp_all
qed


end
